theory Spec2Isabelle
  imports Complex_Main
begin

section \<open>JavaScript numbers and typed arrays\<close>

text \<open>
  The decoder of \<^verbatim>\<open>src/color.js\<close> computes with JavaScript numbers and stores them
  in a \<^verbatim>\<open>Uint8Array\<close> or a \<^verbatim>\<open>Uint16Array\<close>. The tokens of a segmented program, the
  descriptor values and the entries of explicit data are integers. A quotient of two
  integers is a rational: numbers are modelled as \<open>rat option\<close>, where \<open>None\<close>
  stands for \<^verbatim>\<open>NaN\<close>, and a value read from an array is an \<open>int option\<close>, where
  \<open>None\<close> stands for \<^verbatim>\<open>undefined\<close> (which arithmetic turns into \<^verbatim>\<open>NaN\<close>).

  The code computes in IEEE doubles, the model in exact rationals. The two agree where
  the operands of a Linear segment and the entries of the buffer are unsigned and of
  at most 16 bits, and the write cursor stays below \<open>2 ^ 53\<close>: a double counts
  exactly up to \<open>2 ^ 53\<close>; the exact sum \<open>entry + (endpoint - startpoint) / length\<close> is
  either a half-integer, which the doubles hold exactly, or at least
  \<open>1 / (2 * length) > 2 ^ - 17\<close> away from every half-integer, while the double is
  within \<open>2 ^ - 35\<close> of it; so \<^verbatim>\<open>Math.round\<close> gives the same integer. Beyond that
  range the rationals are not the code (an endpoint near \<open>2 ^ 53\<close> is rounded by the
  double before \<^verbatim>\<open>Math.round\<close> sees it), and a statement about the values that a
  Linear segment stores carries these bounds as hypotheses.
\<close>

datatype array_type = Uint8Array | Uint16Array

fun bits_of :: "array_type \<Rightarrow> nat" where
  "bits_of Uint8Array = 8"
| "bits_of Uint16Array = 16"

text \<open>Conversion of an integer to the element type: the value modulo \<open>2 ^ bits\<close>.\<close>

definition to_uint :: "array_type \<Rightarrow> int \<Rightarrow> int" where
  "to_uint ty v = v mod 2 ^ bits_of ty"

text \<open>\<^verbatim>\<open>new Type(n)\<close>: \<open>n\<close> zeros.\<close>

definition new_typed :: "array_type \<Rightarrow> nat \<Rightarrow> int list" where
  "new_typed ty n = replicate n 0"

text \<open>\<^verbatim>\<open>new Type(array)\<close>: a copy of the same length, every entry converted.\<close>

definition typed_from :: "array_type \<Rightarrow> int list \<Rightarrow> int list" where
  "typed_from ty xs = map (to_uint ty) xs"

text \<open>\<^verbatim>\<open>lut[j]\<close>: \<^verbatim>\<open>undefined\<close> outside the array.\<close>

definition typed_get :: "int list \<Rightarrow> int \<Rightarrow> int option" where
  "typed_get lut j = (if 0 \<le> j \<and> j < int (length lut) then Some (lut ! nat j) else None)"

text \<open>
  \<^verbatim>\<open>lut[j] = v\<close>: a store outside a typed array is ignored, without an error; inside,
  \<^verbatim>\<open>undefined\<close> and \<^verbatim>\<open>NaN\<close> are stored as 0 and an integer modulo \<open>2 ^ bits\<close>.
\<close>

definition typed_set :: "array_type \<Rightarrow> int list \<Rightarrow> int \<Rightarrow> int option \<Rightarrow> int list" where
  "typed_set ty lut j v =
     (if 0 \<le> j \<and> j < int (length lut)
      then lut[nat j := (case v of None \<Rightarrow> 0 | Some x \<Rightarrow> to_uint ty x)]
      else lut)"

text \<open>\<^verbatim>\<open>segmentedData[i]\<close> on an ordinary array: \<^verbatim>\<open>undefined\<close> past the end.\<close>

definition js_index :: "int list \<Rightarrow> nat \<Rightarrow> int option" where
  "js_index xs i = (if i < length xs then Some (xs ! i) else None)"

definition js_add_int :: "int option \<Rightarrow> int option \<Rightarrow> int option" where
  "js_add_int a b = (case a of None \<Rightarrow> None | Some x \<Rightarrow> (case b of None \<Rightarrow> None | Some y \<Rightarrow> Some (x + y)))"

definition js_minus :: "int option \<Rightarrow> int option \<Rightarrow> rat option" where
  "js_minus a b =
     (case a of None \<Rightarrow> None
      | Some x \<Rightarrow> (case b of None \<Rightarrow> None | Some y \<Rightarrow> Some (of_int x - of_int y)))"

text \<open>
  The quotient by zero, an infinity or \<^verbatim>\<open>NaN\<close> in JavaScript, is \<open>None\<close> here; the
  decoder never reads it, since the loop that uses \<^verbatim>\<open>step\<close> runs only when
  \<^verbatim>\<open>length\<close> is positive.
\<close>

definition js_div :: "rat option \<Rightarrow> int option \<Rightarrow> rat option" where
  "js_div a b =
     (case a of None \<Rightarrow> None
      | Some x \<Rightarrow> (case b of None \<Rightarrow> None
                   | Some y \<Rightarrow> (if y = 0 then None else Some (x / of_int y))))"

definition js_plus :: "int option \<Rightarrow> rat option \<Rightarrow> rat option" where
  "js_plus a b =
     (case a of None \<Rightarrow> None
      | Some x \<Rightarrow> (case b of None \<Rightarrow> None | Some y \<Rightarrow> Some (of_int x + y)))"

text \<open>\<^verbatim>\<open>Math.round\<close>: the nearest integer, a half going up.\<close>

definition round_half_up :: "rat \<Rightarrow> int" where
  "round_half_up x = \<lfloor>x + 1 / 2\<rfloor>"

definition Math_round :: "rat option \<Rightarrow> int option" where
  "Math_round x = map_option round_half_up x"

text \<open>
  Modelled from the spec: \<^verbatim>\<open>rescale\<close> of \<^verbatim>\<open>utils.js\<close>, which is not among the sources:
  \<^verbatim>\<open>outMin + (value - inMin) * (outMax - outMin) / (inMax - inMin)\<close>.
\<close>

definition rescale :: "int option \<Rightarrow> rat \<Rightarrow> rat \<Rightarrow> rat \<Rightarrow> rat \<Rightarrow> rat option" where
  "rescale v inMin inMax outMin outMax =
     (case v of None \<Rightarrow> None
      | Some x \<Rightarrow> Some (outMin + (of_int x - inMin) * (outMax - outMin) / (inMax - inMin)))"

section \<open>The table\<close>

datatype channel = Red | Green | Blue

datatype error =
    DescriptorMismatch nat
  | UnsupportedBitsPerEntry
  | DataConflict channel
  | MissingData channel
  | WrongNumberOfEntries channel
  | UnsupportedSegment
  | InvalidSegment
  | SizeMismatch
  | TypeError

text \<open>A descriptor: number of entries, first value mapped, bits per entry.\<close>

type_synonym descriptor = "nat \<times> int \<times> nat"

text \<open>The attributes an object holds (\<^verbatim>\<open>this[_attrs]\<close>); \<open>data\<close> is the cache.\<close>

record attrs =
  uid :: string
  numberOfEntries :: nat
  firstValueMapped :: int
  bitsPerEntry :: nat
  redSegmentedData :: "int list option"
  redData :: "int list option"
  greenSegmentedData :: "int list option"
  greenData :: "int list option"
  blueSegmentedData :: "int list option"
  blueData :: "int list option"
  DataType :: array_type
  data :: "int option list list option"

text \<open>
  The constructor. Each \<^verbatim>\<open>throw\<close> is an \<open>Inl\<close>, in the order of the source. The
  second test of the blue channel repeats the first one, as the source does.
\<close>

definition PaletteColorLookupTable ::
  "string \<Rightarrow> descriptor \<Rightarrow> descriptor \<Rightarrow> descriptor \<Rightarrow>
   int list option \<Rightarrow> int list option \<Rightarrow> int list option \<Rightarrow>
   int list option \<Rightarrow> int list option \<Rightarrow> int list option \<Rightarrow> error + attrs" where
  "PaletteColorLookupTable uid' redDescriptor greenDescriptor blueDescriptor
      redData' greenData' blueData'
      redSegmentedData' greenSegmentedData' blueSegmentedData' =
    (if card (set [fst redDescriptor, fst greenDescriptor, fst blueDescriptor]) \<noteq> 1
     then Inl (DescriptorMismatch 1)
     else let n = fst redDescriptor;
              numberOfEntries' = (if n = 0 then 2 ^ 16 else n) in
     if card (set [fst (snd redDescriptor), fst (snd greenDescriptor),
                   fst (snd blueDescriptor)]) \<noteq> 1
     then Inl (DescriptorMismatch 2)
     else if card (set [snd (snd redDescriptor), snd (snd greenDescriptor),
                        snd (snd blueDescriptor)]) \<noteq> 1
     then Inl (DescriptorMismatch 3)
     else let bitsPerEntry' = snd (snd redDescriptor) in
     if bitsPerEntry' \<notin> set [8, 16] then Inl UnsupportedBitsPerEntry
     else if redSegmentedData' \<noteq> None \<and> redData' \<noteq> None then Inl (DataConflict Red)
     else if redSegmentedData' = None \<and> redData' = None then Inl (MissingData Red)
     else if (case redData' of None \<Rightarrow> False | Some d \<Rightarrow> length d \<noteq> numberOfEntries')
     then Inl (WrongNumberOfEntries Red)
     else if greenSegmentedData' \<noteq> None \<and> greenData' \<noteq> None then Inl (DataConflict Green)
     else if greenSegmentedData' = None \<and> greenData' = None then Inl (MissingData Green)
     else if (case greenData' of None \<Rightarrow> False | Some d \<Rightarrow> length d \<noteq> numberOfEntries')
     then Inl (WrongNumberOfEntries Green)
     else if blueSegmentedData' \<noteq> None \<and> blueData' \<noteq> None then Inl (DataConflict Blue)
     else if blueSegmentedData' \<noteq> None \<and> blueData' \<noteq> None then Inl (MissingData Blue)
     else if (case blueData' of None \<Rightarrow> False | Some d \<Rightarrow> length d \<noteq> numberOfEntries')
     then Inl (WrongNumberOfEntries Blue)
     else Inr \<lparr> uid = uid',
                numberOfEntries = numberOfEntries',
                firstValueMapped = fst (snd redDescriptor),
                bitsPerEntry = bitsPerEntry',
                redSegmentedData = redSegmentedData',
                redData = redData',
                greenSegmentedData = greenSegmentedData',
                greenData = greenData',
                blueSegmentedData = blueSegmentedData',
                blueData = blueData',
                DataType = (if bitsPerEntry' = 8 then Uint8Array else Uint16Array),
                data = None \<rparr>)"

section \<open>The segment decoder\<close>

text \<open>
  The two inner loops \<^verbatim>\<open>for (let j = offset; j < offset + length; j++)\<close>, from \<open>j\<close> up
  to the bound \<open>hi\<close>. The sum and the rounding of the Linear loop are exact here and
  IEEE doubles in the code: the same for unsigned operands of at most 16 bits, as
  said above.
\<close>

function discrete_loop :: "array_type \<Rightarrow> int list \<Rightarrow> int \<Rightarrow> int \<Rightarrow> int option \<Rightarrow> int list" where
  "discrete_loop ty lut j hi v =
     (if j < hi then discrete_loop ty (typed_set ty lut j v) (j + 1) hi v else lut)"
  by pat_completeness auto
termination
  by (relation "measure (\<lambda>(ty, lut, j, hi, v). nat (hi - j))") auto

function linear_loop :: "array_type \<Rightarrow> int list \<Rightarrow> int \<Rightarrow> int \<Rightarrow> rat option \<Rightarrow> int list" where
  "linear_loop ty lut j hi step =
     (if j < hi
      then linear_loop ty
             (typed_set ty lut j (Math_round (js_plus (typed_get lut (j - 1)) step)))
             (j + 1) hi step
      else lut)"
  by pat_completeness auto
termination
  by (relation "measure (\<lambda>(ty, lut, j, hi, step). nat (hi - j))") auto

text \<open>
  A loop whose start or bound is \<^verbatim>\<open>NaN\<close> does not run: \<^verbatim>\<open>j < NaN\<close> is false.
\<close>

definition for_discrete ::
  "array_type \<Rightarrow> int list \<Rightarrow> int option \<Rightarrow> int option \<Rightarrow> int option \<Rightarrow> int list" where
  "for_discrete ty lut offset hi v =
     (case offset of None \<Rightarrow> lut
      | Some j \<Rightarrow> (case hi of None \<Rightarrow> lut | Some h \<Rightarrow> discrete_loop ty lut j h v))"

definition for_linear ::
  "array_type \<Rightarrow> int list \<Rightarrow> int option \<Rightarrow> int option \<Rightarrow> rat option \<Rightarrow> int list" where
  "for_linear ty lut offset hi step =
     (case offset of None \<Rightarrow> lut
      | Some j \<Rightarrow> (case hi of None \<Rightarrow> lut | Some h \<Rightarrow> linear_loop ty lut j h step))"

text \<open>
  The outer loop, with the read cursor \<open>i\<close> and the write cursor \<open>offset\<close>. A segment
  takes three tokens: the opcode and two operands, read with \<^verbatim>\<open>i++\<close>, \<^verbatim>\<open>i++\<close> and
  the increment of the loop.
\<close>

function expand_loop ::
  "array_type \<Rightarrow> int list \<Rightarrow> nat \<Rightarrow> int list \<Rightarrow> int option \<Rightarrow> error + int list" where
  "expand_loop ty segmentedData i lut offset =
     (if i < length segmentedData then
        (let opcode = segmentedData ! i in
         if opcode = 0 then
           (let len = js_index segmentedData (i + 1);
                val = js_index segmentedData (i + 2);
                lut' = for_discrete ty lut offset (js_add_int offset len) val
            in expand_loop ty segmentedData (i + 3) lut' (js_add_int offset len))
         else if opcode = 1 then
           (let len = js_index segmentedData (i + 1);
                endpoint = js_index segmentedData (i + 2);
                startpoint = (case offset of None \<Rightarrow> None | Some off \<Rightarrow> typed_get lut (off - 1));
                step = js_div (js_minus endpoint startpoint) len;
                lut' = for_linear ty lut offset (js_add_int offset len) step
            in expand_loop ty segmentedData (i + 3) lut' (js_add_int offset len))
         else if opcode = 2 then Inl UnsupportedSegment
         else Inl InvalidSegment)
      else Inr lut)"
  by pat_completeness auto
termination
  by (relation "measure (\<lambda>(ty, segmentedData, i, lut, offset). length segmentedData - i)") auto

text \<open>
  \<^verbatim>\<open>_expandSegmentedLUTData\<close>. Reading \<^verbatim>\<open>segmentedData.length\<close> of a missing program
  is a \<^verbatim>\<open>TypeError\<close>.
\<close>

definition expandSegmentedLUTData :: "attrs \<Rightarrow> int list option \<Rightarrow> error + int list" where
  "expandSegmentedLUTData a segmentedData =
     (case segmentedData of
        None \<Rightarrow> Inl TypeError
      | Some program \<Rightarrow>
          expand_loop (DataType a) program 0 (new_typed (DataType a) (numberOfEntries a)) (Some 0))"

section \<open>Materialisation\<close>

definition channel_lut :: "attrs \<Rightarrow> channel \<Rightarrow> error + int list" where
  "channel_lut a c =
     (let explicit = (case c of Red \<Rightarrow> redData a | Green \<Rightarrow> greenData a | Blue \<Rightarrow> blueData a);
          segmented = (case c of Red \<Rightarrow> redSegmentedData a | Green \<Rightarrow> greenSegmentedData a
                       | Blue \<Rightarrow> blueSegmentedData a)
      in case explicit of
           Some d \<Rightarrow> Inr (typed_from (DataType a) d)
         | None \<Rightarrow> expandSegmentedLUTData a segmented)"

text \<open>The 16-bit branch: 256 samples, every 256th entry, rescaled and rounded.\<close>

definition resample16 :: "int list \<Rightarrow> int list \<Rightarrow> int list \<Rightarrow> int option list list" where
  "resample16 redLUT greenLUT blueLUT =
     (let maxInput = 2 ^ 16 - 1; maxOutput = 2 ^ 8 - 1; steps = (2 ^ 16) div (2 ^ 8) in
      map (\<lambda>i. let j = int (i * steps) in
                 [Math_round (rescale (typed_get redLUT j) 0 maxInput 0 maxOutput),
                  Math_round (rescale (typed_get greenLUT j) 0 maxInput 0 maxOutput),
                  Math_round (rescale (typed_get blueLUT j) 0 maxInput 0 maxOutput)])
          [0..<steps])"

text \<open>The 8-bit branch: the three arrays side by side.\<close>

definition zip8 :: "nat \<Rightarrow> int list \<Rightarrow> int list \<Rightarrow> int list \<Rightarrow> int option list list" where
  "zip8 n redLUT greenLUT blueLUT =
     map (\<lambda>i. [typed_get redLUT (int i), typed_get greenLUT (int i), typed_get blueLUT (int i)])
         [0..<n]"

text \<open>
  The getter \<^verbatim>\<open>data\<close>: the table and the object with its cache filled. The set of
  sizes is built from the red and, twice, the blue array, as in the source.
\<close>

definition get_data :: "attrs \<Rightarrow> error + (int option list list \<times> attrs)" where
  "get_data a =
     (case data a of
        Some cached \<Rightarrow> Inr (cached, a)
      | None \<Rightarrow>
         (case channel_lut a Red of Inl e \<Rightarrow> Inl e | Inr redLUT \<Rightarrow>
         (case channel_lut a Green of Inl e \<Rightarrow> Inl e | Inr greenLUT \<Rightarrow>
         (case channel_lut a Blue of Inl e \<Rightarrow> Inl e | Inr blueLUT \<Rightarrow>
            (if card (set [length redLUT, length blueLUT, length blueLUT]) > 1
             then Inl SizeMismatch
             else (let table = (if bitsPerEntry a = 16
                                then resample16 redLUT greenLUT blueLUT
                                else zip8 (numberOfEntries a) redLUT greenLUT blueLUT)
                   in Inr (table, a\<lparr>data := Some table\<rparr>)))))))"

declare discrete_loop.simps [simp del]
declare linear_loop.simps [simp del]
declare expand_loop.simps [simp del]

section \<open>Properties of the typed arrays and of the decoder\<close>


lemma length_typed_set: "length (typed_set ty lut j v) = length lut"
  by (simp add: typed_set_def)

lemma typed_set_beyond: "int (length lut) \<le> j \<Longrightarrow> typed_set ty lut j v = lut"
  by (simp add: typed_set_def)

lemma length_discrete_loop: "length (discrete_loop ty lut j hi v) = length lut"
proof (induction ty lut j hi v rule: discrete_loop.induct)
  case (1 ty lut j hi v)
  show ?case
  proof (cases "j < hi")
    case True
    with "1" show ?thesis
      by (subst discrete_loop.simps) (simp add: length_typed_set)
  next
    case False
    then show ?thesis by (subst discrete_loop.simps) simp
  qed
qed

lemma length_linear_loop: "length (linear_loop ty lut j hi step) = length lut"
proof (induction ty lut j hi step rule: linear_loop.induct)
  case (1 ty lut j hi step)
  show ?case
  proof (cases "j < hi")
    case True
    with "1" show ?thesis
      by (subst linear_loop.simps) (simp add: length_typed_set)
  next
    case False
    then show ?thesis by (subst linear_loop.simps) simp
  qed
qed

lemma length_for_discrete: "length (for_discrete ty lut offset hi v) = length lut"
  by (simp add: for_discrete_def length_discrete_loop split: option.splits)

lemma length_for_linear: "length (for_linear ty lut offset hi step) = length lut"
  by (simp add: for_linear_def length_linear_loop split: option.splits)


lemma expand_loop_done:
  "\<not> i < length sd \<Longrightarrow> expand_loop ty sd i lut offset = Inr lut"
  by (subst expand_loop.simps) simp

lemma expand_loop_discrete:
  "i < length sd \<Longrightarrow> sd ! i = 0 \<Longrightarrow>
   expand_loop ty sd i lut offset =
   expand_loop ty sd (i + 3)
     (for_discrete ty lut offset (js_add_int offset (js_index sd (i + 1))) (js_index sd (i + 2)))
     (js_add_int offset (js_index sd (i + 1)))"
  by (subst expand_loop.simps) (simp add: Let_def)

lemma expand_loop_linear:
  "i < length sd \<Longrightarrow> sd ! i = 1 \<Longrightarrow>
   expand_loop ty sd i lut offset =
   expand_loop ty sd (i + 3)
     (for_linear ty lut offset (js_add_int offset (js_index sd (i + 1)))
        (js_div (js_minus (js_index sd (i + 2))
                   (case offset of None \<Rightarrow> None | Some off \<Rightarrow> typed_get lut (off - 1)))
                (js_index sd (i + 1))))
     (js_add_int offset (js_index sd (i + 1)))"
  by (subst expand_loop.simps) (simp add: Let_def)

lemma expand_loop_indirect:
  "i < length sd \<Longrightarrow> sd ! i = 2 \<Longrightarrow> expand_loop ty sd i lut offset = Inl UnsupportedSegment"
  by (subst expand_loop.simps) (simp add: Let_def)

lemma expand_loop_invalid:
  "i < length sd \<Longrightarrow> sd ! i \<noteq> 0 \<Longrightarrow> sd ! i \<noteq> 1 \<Longrightarrow> sd ! i \<noteq> 2 \<Longrightarrow>
   expand_loop ty sd i lut offset = Inl InvalidSegment"
  by (subst expand_loop.simps) (simp add: Let_def)

lemma length_expand_loop:
  "expand_loop ty sd i lut offset = Inr r \<Longrightarrow> length r = length lut"
proof (induction "length sd - i" arbitrary: i lut offset rule: less_induct)
  case less
  show ?case
  proof (cases "i < length sd")
    case False
    with less.prems show ?thesis by (simp add: expand_loop_done)
  next
    case True
    then have smaller: "length sd - (i + 3) < length sd - i" by simp
    consider (discrete) "sd ! i = 0" | (linear) "sd ! i = 1" | (indirect) "sd ! i = 2"
      | (invalid) "sd ! i \<noteq> 0" "sd ! i \<noteq> 1" "sd ! i \<noteq> 2"
      by blast
    then show ?thesis
    proof cases
      case discrete
      with less.prems True less.hyps [OF smaller] show ?thesis
        by (simp add: expand_loop_discrete length_for_discrete)
    next
      case linear
      with less.prems True less.hyps [OF smaller] show ?thesis
        by (simp add: expand_loop_linear length_for_linear)
    next
      case indirect
      with less.prems True show ?thesis by (simp add: expand_loop_indirect)
    next
      case invalid
      with less.prems True show ?thesis by (simp add: expand_loop_invalid)
    qed
  qed
qed


lemma expand_loop_completes:
  assumes "\<forall>m. i + 3 * m < length sd \<longrightarrow> sd ! (i + 3 * m) = 0 \<or> sd ! (i + 3 * m) = 1"
  shows "\<exists>r. expand_loop ty sd i lut offset = Inr r"
  using assms
proof (induction "length sd - i" arbitrary: i lut offset rule: less_induct)
  case less
  show ?case
  proof (cases "i < length sd")
    case False
    then show ?thesis by (simp add: expand_loop_done)
  next
    case True
    then have smaller: "length sd - (i + 3) < length sd - i" by simp
    have shift: "i + 3 + 3 * m = i + 3 * Suc m" for m by simp
    have rest: "\<forall>m. i + 3 + 3 * m < length sd \<longrightarrow>
                  sd ! (i + 3 + 3 * m) = 0 \<or> sd ! (i + 3 + 3 * m) = 1"
      using less.prems unfolding shift by blast
    from True less.prems have op: "sd ! i = 0 \<or> sd ! i = 1"
      by (metis add.right_neutral mult_0_right)
    note IH = less.hyps [OF smaller rest]
    from op show ?thesis
    proof
      assume "sd ! i = 0"
      with True IH show ?thesis by (simp only: expand_loop_discrete)
    next
      assume "sd ! i = 1"
      with True IH show ?thesis by (simp only: expand_loop_linear)
    qed
  qed
qed


lemma typed_set_nth_other: "int k \<noteq> j \<Longrightarrow> typed_set ty lut j v ! k = lut ! k"
  by (auto simp: typed_set_def)

lemma typed_set_nth_same:
  "k < length lut \<Longrightarrow> typed_set ty lut (int k) (Some x) ! k = to_uint ty x"
  by (simp add: typed_set_def)

lemma linear_loop_outside:
  "\<not> (j \<le> int k \<and> int k < hi) \<Longrightarrow> linear_loop ty lut j hi step ! k = lut ! k"
proof (induction ty lut j hi step rule: linear_loop.induct)
  case (1 ty lut j hi step)
  show ?case
  proof (cases "j < hi")
    case False
    then show ?thesis by (subst linear_loop.simps) simp
  next
    case True
    from True "1.prems" have "int k \<noteq> j" by auto
    moreover from "1.prems" have "\<not> (j + 1 \<le> int k \<and> int k < hi)" by auto
    ultimately show ?thesis
      using True "1.IH" by (subst linear_loop.simps) (simp add: typed_set_nth_other)
  qed
qed

lemma linear_loop_inside:
  "1 \<le> j \<Longrightarrow> j \<le> int k \<Longrightarrow> int k < hi \<Longrightarrow> k < length lut \<Longrightarrow>
   linear_loop ty lut j hi (Some s) ! k =
   to_uint ty (round_half_up (of_int (linear_loop ty lut j hi (Some s) ! (k - 1)) + s))"
proof (induction ty lut j hi "Some s" rule: linear_loop.induct)
  case (1 ty lut j hi)
  let ?lut1 = "typed_set ty lut j (Math_round (js_plus (typed_get lut (j - 1)) (Some s)))"
  from "1.prems" have run: "j < hi" by simp
  then have unfold: "linear_loop ty lut j hi (Some s) = linear_loop ty ?lut1 (j + 1) hi (Some s)"
    by (subst linear_loop.simps) simp
  show ?case
  proof (cases "int k = j")
    case True
    with "1.prems" have prev: "typed_get lut (j - 1) = Some (lut ! (k - 1))"
      by (auto simp: typed_get_def nat_diff_distrib')
    have "linear_loop ty ?lut1 (j + 1) hi (Some s) ! k = ?lut1 ! k"
      using True by (simp add: linear_loop_outside)
    also have "\<dots> = to_uint ty (round_half_up (of_int (lut ! (k - 1)) + s))"
      using True "1.prems" prev typed_set_nth_same [of k lut ty]
      by (simp add: Math_round_def js_plus_def)
    finally have here: "linear_loop ty ?lut1 (j + 1) hi (Some s) ! k =
        to_uint ty (round_half_up (of_int (lut ! (k - 1)) + s))" .
    from True "1.prems" have km: "int (k - 1) \<noteq> j" "\<not> (j + 1 \<le> int (k - 1) \<and> int (k - 1) < hi)"
      by auto
    have "linear_loop ty ?lut1 (j + 1) hi (Some s) ! (k - 1) = ?lut1 ! (k - 1)"
      using km(2) by (rule linear_loop_outside)
    also have "\<dots> = lut ! (k - 1)"
      using km(1) by (rule typed_set_nth_other)
    finally show ?thesis using here unfold by simp
  next
    case False
    with "1.prems" have "j + 1 \<le> int k" by simp
    with "1.hyps" [OF run] "1.prems" unfold show ?thesis
      by (simp add: length_typed_set)
  qed
qed

lemma linear_loop_beyond: "int (length lut) \<le> j \<Longrightarrow> linear_loop ty lut j hi step = lut"
proof (induction ty lut j hi step rule: linear_loop.induct)
  case (1 ty lut j hi step)
  show ?case
  proof (cases "j < hi")
    case False
    then show ?thesis by (subst linear_loop.simps) simp
  next
    case True
    let ?v = "Math_round (js_plus (typed_get lut (j - 1)) step)"
    from "1.prems" have same: "typed_set ty lut j ?v = lut" by (rule typed_set_beyond)
    from "1.prems" have "int (length (typed_set ty lut j ?v)) \<le> j + 1" by (simp add: same)
    from "1.IH" [OF True this] same True show ?thesis
      by (subst linear_loop.simps) simp
  qed
qed

subsection \<open>What the constructor establishes\<close>

lemma if_Inl_eq_Inr: "((if c then Inl e else x) = Inr t) = (\<not> c \<and> x = Inr t)"
  by simp

lemma constructed_record:
  assumes "PaletteColorLookupTable u rd gd bd rD gD bD rS gS bS = Inr t"
  shows "t = \<lparr> uid = u,
               numberOfEntries = (if fst rd = 0 then 2 ^ 16 else fst rd),
               firstValueMapped = fst (snd rd),
               bitsPerEntry = snd (snd rd),
               redSegmentedData = rS, redData = rD,
               greenSegmentedData = gS, greenData = gD,
               blueSegmentedData = bS, blueData = bD,
               DataType = (if snd (snd rd) = 8 then Uint8Array else Uint16Array),
               data = None \<rparr>"
    and "\<not> snd (snd rd) \<notin> set [8, 16]"
    and "\<not> (case rD of None \<Rightarrow> False
            | Some d \<Rightarrow> length d \<noteq> (if fst rd = 0 then 2 ^ 16 else fst rd))"
    and "\<not> (case gD of None \<Rightarrow> False
            | Some d \<Rightarrow> length d \<noteq> (if fst rd = 0 then 2 ^ 16 else fst rd))"
    and "\<not> (case bD of None \<Rightarrow> False
            | Some d \<Rightarrow> length d \<noteq> (if fst rd = 0 then 2 ^ 16 else fst rd))"
  using assms [unfolded PaletteColorLookupTable_def Let_def if_Inl_eq_Inr sum.inject]
  by blast+

lemma constructed_fields:
  assumes "PaletteColorLookupTable u rd gd bd rD gD bD rS gS bS = Inr t"
  shows "data t = None"
    and "numberOfEntries t = (if fst rd = 0 then 2 ^ 16 else fst rd)"
    and "bitsPerEntry t = 8 \<or> bitsPerEntry t = 16"
    and "DataType t = (if bitsPerEntry t = 8 then Uint8Array else Uint16Array)"
    and "redData t = rD" and "greenData t = gD" and "blueData t = bD"
    and "redSegmentedData t = rS" and "greenSegmentedData t = gS" and "blueSegmentedData t = bS"
  using constructed_record(2) [OF assms]
  by (simp_all add: constructed_record(1) [OF assms])

lemma constructed_lengths:
  assumes "PaletteColorLookupTable u rd gd bd rD gD bD rS gS bS = Inr t"
  shows "redData t = Some d \<Longrightarrow> length d = numberOfEntries t"
    and "greenData t = Some d \<Longrightarrow> length d = numberOfEntries t"
    and "blueData t = Some d \<Longrightarrow> length d = numberOfEntries t"
  using constructed_record(3,4,5) [OF assms]
  by (simp_all add: constructed_record(1) [OF assms])

lemma length_expandSegmentedLUTData:
  "expandSegmentedLUTData a s = Inr lut \<Longrightarrow> length lut = numberOfEntries a"
  by (auto simp: expandSegmentedLUTData_def new_typed_def split: option.splits
      dest: length_expand_loop)

lemma length_channel_lut:
  assumes "PaletteColorLookupTable u rd gd bd rD gD bD rS gS bS = Inr t"
    and "channel_lut t c = Inr lut"
  shows "length lut = numberOfEntries t"
proof (cases "case c of Red \<Rightarrow> redData t | Green \<Rightarrow> greenData t | Blue \<Rightarrow> blueData t")
  case None
  with assms(2) have "expandSegmentedLUTData t
      (case c of Red \<Rightarrow> redSegmentedData t | Green \<Rightarrow> greenSegmentedData t
       | Blue \<Rightarrow> blueSegmentedData t) = Inr lut"
    by (simp add: channel_lut_def)
  then show ?thesis by (rule length_expandSegmentedLUTData)
next
  case (Some d)
  with assms(2) have "lut = typed_from (DataType t) d"
    by (simp add: channel_lut_def)
  moreover from Some constructed_lengths [OF assms(1)] have "length d = numberOfEntries t"
    by (cases c) simp_all
  ultimately show ?thesis by (simp add: typed_from_def)
qed

subsection \<open>The checks of the constructor, channel by channel\<close>

text \<open>
  With descriptors and the other two channels as in a call that succeeds: the red
  and the green channel are refused with both kinds of data and with neither; the
  blue channel is refused with both, and accepted with neither.
\<close>

lemma constructor_green_checks:
  assumes "PaletteColorLookupTable u rd gd bd rD gD' bD rS gS' bS = Inr t"
  shows "gS \<noteq> None \<Longrightarrow> gD \<noteq> None \<Longrightarrow>
         PaletteColorLookupTable u rd gd bd rD gD bD rS gS bS = Inl (DataConflict Green)"
    and "PaletteColorLookupTable u rd gd bd rD None bD rS None bS = Inl (MissingData Green)"
  using assms [unfolded PaletteColorLookupTable_def Let_def if_Inl_eq_Inr sum.inject]
  unfolding PaletteColorLookupTable_def Let_def
  by (elim conjE, simp only: if_False if_True simp_thms)+

lemma constructor_red_checks:
  assumes "PaletteColorLookupTable u rd gd bd rD' gD bD rS' gS bS = Inr t"
  shows "rS \<noteq> None \<Longrightarrow> rD \<noteq> None \<Longrightarrow>
         PaletteColorLookupTable u rd gd bd rD gD bD rS gS bS = Inl (DataConflict Red)"
    and "PaletteColorLookupTable u rd gd bd None gD bD None gS bS = Inl (MissingData Red)"
  using assms [unfolded PaletteColorLookupTable_def Let_def if_Inl_eq_Inr sum.inject]
  unfolding PaletteColorLookupTable_def Let_def
  by (elim conjE, simp only: if_False if_True simp_thms)+

lemma constructor_blue_checks:
  assumes "PaletteColorLookupTable u rd gd bd rD gD bD' rS gS bS' = Inr t"
  shows "bS \<noteq> None \<Longrightarrow> bD \<noteq> None \<Longrightarrow>
         PaletteColorLookupTable u rd gd bd rD gD bD rS gS bS = Inl (DataConflict Blue)"
    and "PaletteColorLookupTable u rd gd bd rD gD None rS gS None =
         Inr (t\<lparr>blueSegmentedData := None, blueData := None\<rparr>)"
  using assms [unfolded PaletteColorLookupTable_def Let_def if_Inl_eq_Inr sum.inject]
  unfolding PaletteColorLookupTable_def Let_def
  by (elim conjE, simp only: if_False if_True simp_thms, (auto)[1])+

subsection \<open>Materialisation\<close>

lemma get_data_uncached:
  assumes "data t = None" and "get_data t = Inr (table, t')"
  obtains r g b where "channel_lut t Red = Inr r" and "channel_lut t Green = Inr g"
    and "channel_lut t Blue = Inr b"
    and "\<not> card (set [length r, length b, length b]) > 1"
    and "table = (if bitsPerEntry t = 16 then resample16 r g b
                  else zip8 (numberOfEntries t) r g b)"
    and "t' = t\<lparr>data := Some table\<rparr>"
  using assms unfolding get_data_def Let_def
  by (auto split: sum.splits if_splits)

lemma get_data_cached_value: "data a = Some table \<Longrightarrow> get_data a = Inr (table, a)"
  by (simp add: get_data_def)

lemma typed_get_nat: "typed_get x (int n) = (if n < length x then Some (x ! n) else None)"
  by (simp add: typed_get_def)

lemma length_zip8: "length (zip8 n r g b) = n"
  by (simp add: zip8_def)

lemma nth_zip8:
  "i < n \<Longrightarrow> n = length r \<Longrightarrow> n = length g \<Longrightarrow> n = length b \<Longrightarrow>
   zip8 n r g b ! i = [Some (r ! i), Some (g ! i), Some (b ! i)]"
  unfolding zip8_def by (simp add: typed_get_nat)

lemma length_resample16: "length (resample16 r g b) = 256"
  by (simp add: resample16_def Let_def)

lemma sample16:
  "Math_round (rescale (typed_get x (int (i * 256))) 0 (2 ^ 16 - 1) 0 (2 ^ 8 - 1)) =
   (if i * 256 < length x then Some (round_half_up (of_int (x ! (i * 256)) * 255 / 65535)) else None)"
  unfolding typed_get_nat by (simp add: Math_round_def rescale_def)

lemma nth_resample16:
  "i < 256 \<Longrightarrow> resample16 r g b ! i =
     [if i * 256 < length r then Some (round_half_up (of_int (r ! (i * 256)) * 255 / 65535)) else None,
      if i * 256 < length g then Some (round_half_up (of_int (g ! (i * 256)) * 255 / 65535)) else None,
      if i * 256 < length b then Some (round_half_up (of_int (b ! (i * 256)) * 255 / 65535)) else None]"
proof -
  assume i: "i < 256"
  have steps: "(2 ^ 16) div (2 ^ 8) = (256 :: nat)" by simp
  show ?thesis
    unfolding resample16_def Let_def steps using i
    by (simp only: nth_map length_upt nth_upt diff_zero add_0 sample16)
qed

lemma expand_loop_error:
  "expand_loop ty sd i lut offset = Inl e \<Longrightarrow> e = UnsupportedSegment \<or> e = InvalidSegment"
proof (induction "length sd - i" arbitrary: i lut offset rule: less_induct)
  case less
  show ?case
  proof (cases "i < length sd")
    case False
    with less.prems show ?thesis by (simp add: expand_loop_done)
  next
    case True
    then have smaller: "length sd - (i + 3) < length sd - i" by simp
    consider (discrete) "sd ! i = 0" | (linear) "sd ! i = 1" | (indirect) "sd ! i = 2"
      | (invalid) "sd ! i \<noteq> 0" "sd ! i \<noteq> 1" "sd ! i \<noteq> 2"
      by blast
    then show ?thesis
    proof cases
      case discrete
      with less.prems True less.hyps [OF smaller] show ?thesis
        by (simp add: expand_loop_discrete)
    next
      case linear
      with less.prems True less.hyps [OF smaller] show ?thesis
        by (simp add: expand_loop_linear)
    next
      case indirect
      with less.prems True show ?thesis by (simp add: expand_loop_indirect)
    next
      case invalid
      with less.prems True show ?thesis by (simp add: expand_loop_invalid)
    qed
  qed
qed

lemma channel_lut_error:
  "channel_lut t c = Inl e \<Longrightarrow> e = UnsupportedSegment \<or> e = InvalidSegment \<or> e = TypeError"
  by (auto simp: channel_lut_def expandSegmentedLUTData_def split: option.splits
      dest: expand_loop_error)

lemma get_data_error:
  assumes "data t = None" and "get_data t = Inl e"
  shows "(\<exists>c. channel_lut t c = Inl e)
       \<or> (\<exists>r b. channel_lut t Red = Inr r \<and> channel_lut t Blue = Inr b
               \<and> card (set [length r, length b, length b]) > 1)"
  using assms unfolding get_data_def Let_def
  by (auto split: sum.splits if_splits)

text \<open>
  When a read returns: a channel yields an array when it has explicit data, or a
  program whose opcodes are all 0 or 1; once the three channels yield arrays, the
  getter returns a table.
\<close>

lemma channel_lut_returns:
  assumes "(case c of Red \<Rightarrow> redData t | Green \<Rightarrow> greenData t | Blue \<Rightarrow> blueData t) \<noteq> None
         \<or> (\<exists>program. (case c of Red \<Rightarrow> redSegmentedData t | Green \<Rightarrow> greenSegmentedData t
                           | Blue \<Rightarrow> blueSegmentedData t) = Some program
               \<and> (\<forall>m. 3 * m < length program \<longrightarrow>
                     program ! (3 * m) = 0 \<or> program ! (3 * m) = 1))"
  shows "\<exists>lut. channel_lut t c = Inr lut"
proof (cases "case c of Red \<Rightarrow> redData t | Green \<Rightarrow> greenData t | Blue \<Rightarrow> blueData t")
  case (Some d)
  then show ?thesis by (simp add: channel_lut_def)
next
  case None
  with assms obtain program where
    seg: "(case c of Red \<Rightarrow> redSegmentedData t | Green \<Rightarrow> greenSegmentedData t
           | Blue \<Rightarrow> blueSegmentedData t) = Some program"
    and ops: "\<forall>m. 3 * m < length program \<longrightarrow> program ! (3 * m) = 0 \<or> program ! (3 * m) = 1"
    by auto
  from ops have "\<forall>m. 0 + 3 * m < length program \<longrightarrow>
      program ! (0 + 3 * m) = 0 \<or> program ! (0 + 3 * m) = 1"
    by simp
  from expand_loop_completes [OF this]
  obtain r where "expand_loop (DataType t) program 0
      (new_typed (DataType t) (numberOfEntries t)) (Some 0) = Inr r"
    by blast
  with None seg show ?thesis
    by (simp add: channel_lut_def expandSegmentedLUTData_def)
qed

lemma get_data_returns:
  assumes "PaletteColorLookupTable u rd gd bd rD gD bD rS gS bS = Inr t"
    and "\<forall>c. \<exists>lut. channel_lut t c = Inr lut"
  shows "\<exists>table t'. get_data t = Inr (table, t')"
proof -
  from assms(2) obtain r g b where ch: "channel_lut t Red = Inr r" "channel_lut t Green = Inr g"
      "channel_lut t Blue = Inr b"
    by metis
  then have "length r = numberOfEntries t" "length b = numberOfEntries t"
    by (simp_all add: length_channel_lut [OF assms(1)])
  then have "\<not> card (set [length r, length b, length b]) > 1" by simp
  with ch constructed_fields(1) [OF assms(1)] show ?thesis
    by (simp add: get_data_def Let_def)
qed

subsection \<open>Entries of a typed array are within its width\<close>

lemma to_uint_range: "0 \<le> to_uint ty v \<and> to_uint ty v < 2 ^ bits_of ty"
  by (simp add: to_uint_def)

lemma typed_set_range:
  assumes "\<forall>x\<in>set lut. 0 \<le> x \<and> x < 2 ^ bits_of ty"
  shows "\<forall>x\<in>set (typed_set ty lut j v). 0 \<le> x \<and> x < 2 ^ bits_of ty"
proof
  fix x assume "x \<in> set (typed_set ty lut j v)"
  then have "x \<in> set lut \<or> x = (case v of None \<Rightarrow> 0 | Some y \<Rightarrow> to_uint ty y)"
    using set_update_subset_insert [of lut "nat j"]
    by (auto simp: typed_set_def split: if_splits)
  with assms show "0 \<le> x \<and> x < 2 ^ bits_of ty"
    by (auto simp: to_uint_range split: option.splits)
qed

lemma discrete_loop_range:
  "\<forall>x\<in>set lut. 0 \<le> x \<and> x < 2 ^ bits_of ty \<Longrightarrow>
   \<forall>x\<in>set (discrete_loop ty lut j hi v). 0 \<le> x \<and> x < 2 ^ bits_of ty"
proof (induction ty lut j hi v rule: discrete_loop.induct)
  case (1 ty lut j hi v)
  show ?case
  proof (cases "j < hi")
    case True
    from "1.IH" [OF True typed_set_range [OF "1.prems"]] True show ?thesis
      by (subst discrete_loop.simps) simp
  next
    case False
    with "1.prems" show ?thesis by (subst discrete_loop.simps) simp
  qed
qed

lemma linear_loop_range:
  "\<forall>x\<in>set lut. 0 \<le> x \<and> x < 2 ^ bits_of ty \<Longrightarrow>
   \<forall>x\<in>set (linear_loop ty lut j hi step). 0 \<le> x \<and> x < 2 ^ bits_of ty"
proof (induction ty lut j hi step rule: linear_loop.induct)
  case (1 ty lut j hi step)
  show ?case
  proof (cases "j < hi")
    case True
    from "1.IH" [OF True typed_set_range [OF "1.prems"]] True show ?thesis
      by (subst linear_loop.simps) simp
  next
    case False
    with "1.prems" show ?thesis by (subst linear_loop.simps) simp
  qed
qed

lemma for_discrete_range:
  assumes "\<forall>x\<in>set lut. 0 \<le> x \<and> x < 2 ^ bits_of ty"
  shows "\<forall>x\<in>set (for_discrete ty lut offset hi v). 0 \<le> x \<and> x < 2 ^ bits_of ty"
proof -
  have "for_discrete ty lut offset hi v = lut
      \<or> (\<exists>j h. for_discrete ty lut offset hi v = discrete_loop ty lut j h v)"
    by (cases offset; cases hi) (auto simp: for_discrete_def)
  then show ?thesis
  proof (elim disjE exE)
    assume "for_discrete ty lut offset hi v = lut"
    then show ?thesis using assms by (simp only:)
  next
    fix j h assume eq: "for_discrete ty lut offset hi v = discrete_loop ty lut j h v"
    show ?thesis unfolding eq using assms by (rule discrete_loop_range)
  qed
qed

lemma for_linear_range:
  assumes "\<forall>x\<in>set lut. 0 \<le> x \<and> x < 2 ^ bits_of ty"
  shows "\<forall>x\<in>set (for_linear ty lut offset hi step). 0 \<le> x \<and> x < 2 ^ bits_of ty"
proof -
  have "for_linear ty lut offset hi step = lut
      \<or> (\<exists>j h. for_linear ty lut offset hi step = linear_loop ty lut j h step)"
    by (cases offset; cases hi) (auto simp: for_linear_def)
  then show ?thesis
  proof (elim disjE exE)
    assume "for_linear ty lut offset hi step = lut"
    then show ?thesis using assms by (simp only:)
  next
    fix j h assume eq: "for_linear ty lut offset hi step = linear_loop ty lut j h step"
    show ?thesis unfolding eq using assms by (rule linear_loop_range)
  qed
qed

lemma expand_loop_range:
  "expand_loop ty sd i lut offset = Inr r \<Longrightarrow>
   \<forall>x\<in>set lut. 0 \<le> x \<and> x < 2 ^ bits_of ty \<Longrightarrow>
   \<forall>x\<in>set r. 0 \<le> x \<and> x < 2 ^ bits_of ty"
proof (induction "length sd - i" arbitrary: i lut offset rule: less_induct)
  case less
  show ?case
  proof (cases "i < length sd")
    case False
    with less.prems(1) have "r = lut" by (simp add: expand_loop_done)
    with less.prems(2) show ?thesis by (simp only:)
  next
    case True
    then have smaller: "length sd - (i + 3) < length sd - i" by simp
    consider (discrete) "sd ! i = 0" | (linear) "sd ! i = 1" | (indirect) "sd ! i = 2"
      | (invalid) "sd ! i \<noteq> 0" "sd ! i \<noteq> 1" "sd ! i \<noteq> 2"
      by blast
    then show ?thesis
    proof cases
      case discrete
      let ?lut = "for_discrete ty lut offset (js_add_int offset (js_index sd (i + 1)))
          (js_index sd (i + 2))"
      from less.prems(1) True discrete
      have "expand_loop ty sd (i + 3) ?lut (js_add_int offset (js_index sd (i + 1))) = Inr r"
        by (simp only: expand_loop_discrete)
      then show ?thesis
        by (rule less.hyps [OF smaller]) (rule for_discrete_range [OF less.prems(2)])
    next
      case linear
      let ?lut = "for_linear ty lut offset (js_add_int offset (js_index sd (i + 1)))
          (js_div (js_minus (js_index sd (i + 2))
                     (case offset of None \<Rightarrow> None | Some off \<Rightarrow> typed_get lut (off - 1)))
                  (js_index sd (i + 1)))"
      from less.prems(1) True linear
      have "expand_loop ty sd (i + 3) ?lut (js_add_int offset (js_index sd (i + 1))) = Inr r"
        by (simp only: expand_loop_linear)
      then show ?thesis
        by (rule less.hyps [OF smaller]) (rule for_linear_range [OF less.prems(2)])
    next
      case indirect
      with less.prems(1) True show ?thesis by (simp add: expand_loop_indirect)
    next
      case invalid
      with less.prems(1) True show ?thesis by (simp add: expand_loop_invalid)
    qed
  qed
qed

lemma channel_lut_range:
  assumes "channel_lut t c = Inr lut"
  shows "\<forall>x\<in>set lut. 0 \<le> x \<and> x < 2 ^ bits_of (DataType t)"
proof (cases "case c of Red \<Rightarrow> redData t | Green \<Rightarrow> greenData t | Blue \<Rightarrow> blueData t")
  case None
  with assms obtain program where
    "expand_loop (DataType t) program 0 (new_typed (DataType t) (numberOfEntries t)) (Some 0) = Inr lut"
    by (auto simp: channel_lut_def expandSegmentedLUTData_def split: option.splits)
  moreover have "\<forall>x\<in>set (new_typed (DataType t) (numberOfEntries t)).
      0 \<le> x \<and> x < 2 ^ bits_of (DataType t)"
    by (simp add: new_typed_def)
  ultimately show ?thesis by (rule expand_loop_range)
next
  case (Some d)
  with assms have "lut = typed_from (DataType t) d"
    by (simp add: channel_lut_def)
  then show ?thesis by (simp add: typed_from_def to_uint_range)
qed

lemma round_rescaled_range:
  assumes "0 \<le> v" and "v < 2 ^ 16"
  shows "0 \<le> round_half_up (of_int v * 255 / 65535) \<and> round_half_up (of_int v * 255 / 65535) \<le> 255"
proof -
  have "(0 :: rat) \<le> of_int v * 255 / 65535 + 1 / 2"
    using assms(1) by simp
  then have lo: "0 \<le> round_half_up (of_int v * 255 / 65535)"
    unfolding round_half_up_def by (simp only: zero_le_floor)
  from assms(2) have "v \<le> 65535" by simp
  then have "(of_int v :: rat) \<le> 65535" by (metis of_int_le_iff of_int_numeral)
  then have "(of_int v :: rat) * 255 / 65535 + 1 / 2 < 256" by simp
  then have "round_half_up (of_int v * 255 / 65535) < 256"
    unfolding round_half_up_def by (simp only: floor_less_iff of_int_numeral)
  with lo show ?thesis by simp
qed

text \<open>
  Where the components of the table are bytes: in every 8-bit table, and in a 16-bit
  table of more than 65280 entries, whose 256 samples all lie inside the arrays.
\<close>

lemma get_data_components_in_range:
  assumes "PaletteColorLookupTable u rd gd bd rD gD bD rS gS bS = Inr t"
    and "get_data t = Inr (table, t')"
    and "bitsPerEntry t = 8 \<or> 65280 < numberOfEntries t"
    and "i < length table" and "c < 3"
  shows "\<exists>v. table ! i ! c = Some v \<and> 0 \<le> v \<and> v \<le> 255"
proof -
  from constructed_fields(1) [OF assms(1)] assms(2)
  obtain r g b where ch: "channel_lut t Red = Inr r" "channel_lut t Green = Inr g"
      "channel_lut t Blue = Inr b"
    and table: "table = (if bitsPerEntry t = 16 then resample16 r g b
                         else zip8 (numberOfEntries t) r g b)"
    by (rule get_data_uncached)
  from ch have len: "length r = numberOfEntries t" "length g = numberOfEntries t"
      "length b = numberOfEntries t"
    by (simp_all add: length_channel_lut [OF assms(1)])
  have rng: "\<forall>x\<in>set r. 0 \<le> x \<and> x < 2 ^ bits_of (DataType t)"
    "\<forall>x\<in>set g. 0 \<le> x \<and> x < 2 ^ bits_of (DataType t)"
    "\<forall>x\<in>set b. 0 \<le> x \<and> x < 2 ^ bits_of (DataType t)"
    using ch by (blast dest: channel_lut_range)+
  from assms(5) have c: "c = 0 \<or> c = 1 \<or> c = 2" by auto
  show ?thesis
  proof (cases "bitsPerEntry t = 16")
    case False
    with constructed_fields(3,4) [OF assms(1)] have ty: "DataType t = Uint8Array" by simp
    from False table have t8: "table = zip8 (numberOfEntries t) r g b" by simp
    with assms(4) have i: "i < numberOfEntries t" by (simp add: length_zip8)
    then have "table ! i = [Some (r ! i), Some (g ! i), Some (b ! i)]"
      unfolding t8 using len by (intro nth_zip8) simp_all
    moreover from i len rng ty
    have "0 \<le> r ! i \<and> r ! i < 256" "0 \<le> g ! i \<and> g ! i < 256" "0 \<le> b ! i \<and> b ! i < 256"
      by simp_all
    ultimately show ?thesis using c by auto
  next
    case True
    with constructed_fields(4) [OF assms(1)] have ty: "DataType t = Uint16Array" by simp
    from True table have t16: "table = resample16 r g b" by simp
    with assms(4) have i: "i < 256" by (simp add: length_resample16)
    from True assms(3) have "65280 < numberOfEntries t" by simp
    with i have j: "i * 256 < numberOfEntries t" by simp
    from i have tbl: "table ! i =
        [Some (round_half_up (of_int (r ! (i * 256)) * 255 / 65535)),
         Some (round_half_up (of_int (g ! (i * 256)) * 255 / 65535)),
         Some (round_half_up (of_int (b ! (i * 256)) * 255 / 65535))]"
      unfolding t16 using j len by (simp only: nth_resample16 if_True)
    from j len rng ty
    have rv: "0 \<le> r ! (i * 256)" "r ! (i * 256) < 2 ^ 16"
      and gv: "0 \<le> g ! (i * 256)" "g ! (i * 256) < 2 ^ 16"
      and bv: "0 \<le> b ! (i * 256)" "b ! (i * 256) < 2 ^ 16"
      by simp_all
    from c consider "c = 0" | "c = 1" | "c = 2" by blast
    then show ?thesis
    proof cases
      case 1
      then have "table ! i ! c = Some (round_half_up (of_int (r ! (i * 256)) * 255 / 65535))"
        by (simp add: tbl)
      with round_rescaled_range [OF rv] show ?thesis by blast
    next
      case 2
      then have "table ! i ! c = Some (round_half_up (of_int (g ! (i * 256)) * 255 / 65535))"
        by (simp add: tbl)
      with round_rescaled_range [OF gv] show ?thesis by blast
    next
      case 3
      then have "table ! i ! c = Some (round_half_up (of_int (b ! (i * 256)) * 255 / 65535))"
        by (simp add: tbl)
      with round_rescaled_range [OF bv] show ?thesis by blast
    qed
  qed
qed

section \<open>The decoder: claims C2, C3, C4 and C8\<close>

subsection \<open>C2: the example program\<close>

lemma expand_example_8: "expand_loop Uint8Array [0, 1, 10, 1, 3, 20] 0 (replicate 4 0) (Some 0) = Inr [10, 13, 16, 19]"
  by code_simp

lemma expand_example_16: "expand_loop Uint16Array [0, 1, 10, 1, 3, 20] 0 (replicate 4 0) (Some 0) = Inr [10, 13, 16, 19]"
  by code_simp

text \<open>
  C2, as the code has it: the program \<open>[0, 1, 10, 1, 3, 20]\<close> with four entries expands
  to \<open>[10, 13, 16, 19]\<close>, for a table of either width. The Linear segment has the
  step \<open>10 / 3\<close> and adds it to the stored, rounded entry before it:
  \<open>round (10 + 10 / 3) = 13\<close>, \<open>round (13 + 10 / 3) = 16\<close>, \<open>round (16 + 10 / 3) = 19\<close>.
\<close>

theorem expand_example_iterative:
  "expandSegmentedLUTData (a\<lparr>numberOfEntries := 4\<rparr>) (Some [0, 1, 10, 1, 3, 20]) = Inr [10, 13, 16, 19]"
  by (cases "DataType a")
     (simp_all add: expandSegmentedLUTData_def new_typed_def expand_example_8 expand_example_16)

text \<open>
  The same at a table built by the constructor, 16 bits wide.
\<close>

theorem expand_example_iterative_witness:
  "expandSegmentedLUTData
     (projr (PaletteColorLookupTable ''1'' (4, 0, 16) (4, 0, 16) (4, 0, 16) None None None
        (Some [0, 1, 10, 1, 3, 20]) (Some [0, 1, 10, 1, 3, 20]) (Some [0, 1, 10, 1, 3, 20])))
     (Some [0, 1, 10, 1, 3, 20]) = Inr [10, 13, 16, 19]"
  using expand_example_iterative
    [of "projr (PaletteColorLookupTable ''1'' (4, 0, 16) (4, 0, 16) (4, 0, 16) None None None
        (Some [0, 1, 10, 1, 3, 20]) (Some [0, 1, 10, 1, 3, 20]) (Some [0, 1, 10, 1, 3, 20]))"]
  by (simp add: PaletteColorLookupTable_def)

text \<open>
  C2 as the specification states it, with the output \<open>[10, 13, 17, 20]\<close>, fails: that
  output comes from adding the step to the unrounded sums \<open>13.33\<close> and \<open>16.67\<close>,
  which the decoder never holds.
\<close>

theorem expand_example_counterexample:
  "expandSegmentedLUTData
     (projr (PaletteColorLookupTable ''1'' (4, 0, 8) (4, 0, 8) (4, 0, 8) None None None
        (Some [0, 1, 10, 1, 3, 20]) (Some [0, 1, 10, 1, 3, 20]) (Some [0, 1, 10, 1, 3, 20])))
     (Some [0, 1, 10, 1, 3, 20]) = Inr [10, 13, 16, 19]
   \<and> [10, 13, 16, 19] \<noteq> [10, 13, 17, 20 :: int]"
  by code_simp

subsection \<open>C3: a Linear segment rounds from the stored entry\<close>

text \<open>
  C3, as the code has it: a Linear segment whose operands \<open>length\<close> and \<open>endpoint\<close> are
  unsigned 16-bit values, read at a write cursor \<open>off > 0\<close> on a buffer whose entries
  are within its width, has the step \<open>(endpoint - output[off - 1]) / length\<close>, and
  leaves a buffer in which every slot \<open>k\<close> of \<open>[off, off + length)\<close> inside the buffer
  holds \<open>round (output[k - 1] + step)\<close> of the entry stored before it, reduced modulo
  \<open>2 ^ bits\<close>; every other slot is as it was, and decoding goes on three tokens
  further with the write cursor \<open>off + length\<close>. The bounds on the operands, the
  cursor and the buffer are those under which the rationals of the model are the
  doubles of the code.
\<close>

theorem linear_segment_iterative:
  assumes seg: "i + 2 < length sd" "sd ! i = 1"
    and cursor: "0 < off" "off + sd ! (i + 1) < 2 ^ 53"
    and tokens: "0 \<le> sd ! (i + 1)" "sd ! (i + 1) < 2 ^ 16"
      "0 \<le> sd ! (i + 2)" "sd ! (i + 2) < 2 ^ 16"
    and buffer: "\<forall>x\<in>set lut. 0 \<le> x \<and> x < 2 ^ bits_of ty"
  shows "let L = sd ! (i + 1); endpoint = sd ! (i + 2); startpoint = lut ! nat (off - 1);
             step = (of_int endpoint - of_int startpoint) / of_int L;
             lut' = linear_loop ty lut off (off + L) (if L = 0 then None else Some step)
         in expand_loop ty sd i lut (Some off) = expand_loop ty sd (i + 3) lut' (Some (off + L))
            \<and> length lut' = length lut
            \<and> (\<forall>k<length lut. off \<le> int k \<and> int k < off + L \<longrightarrow>
                 lut' ! k = to_uint ty (round_half_up (of_int (lut' ! (k - 1)) + step)))
            \<and> (\<forall>k<length lut. \<not> (off \<le> int k \<and> int k < off + L) \<longrightarrow> lut' ! k = lut ! k)"
proof -
  let ?L = "sd ! (i + 1)"
  let ?step = "(of_int (sd ! (i + 2)) - of_int (lut ! nat (off - 1))) / of_int ?L :: rat"
  let ?lut' = "linear_loop ty lut off (off + ?L) (if ?L = 0 then None else Some ?step)"
  from seg have inside: "i < length sd" by simp
  have "expand_loop ty sd i lut (Some off) = expand_loop ty sd (i + 3) ?lut' (Some (off + ?L))"
  proof (cases "off \<le> int (length lut)")
    case True
    with cursor(1) have "typed_get lut (off - 1) = Some (lut ! nat (off - 1))"
      by (simp add: typed_get_def)
    with inside seg show ?thesis
      by (simp add: expand_loop_linear js_index_def js_add_int_def js_minus_def js_div_def
          for_linear_def)
  next
    case False
    then have beyond: "int (length lut) \<le> off" by simp
    have "linear_loop ty lut off (off + ?L) step' = lut" for step'
      using beyond by (rule linear_loop_beyond)
    with inside seg show ?thesis
      by (simp add: expand_loop_linear js_index_def js_add_int_def for_linear_def)
  qed
  moreover have "length ?lut' = length lut"
    by (rule length_linear_loop)
  moreover have "\<forall>k<length lut. off \<le> int k \<and> int k < off + ?L \<longrightarrow>
      ?lut' ! k = to_uint ty (round_half_up (of_int (?lut' ! (k - 1)) + ?step))"
  proof (intro allI impI)
    fix k assume k: "k < length lut" "off \<le> int k \<and> int k < off + ?L"
    then have "?L \<noteq> 0" by auto
    then have "?lut' = linear_loop ty lut off (off + ?L) (Some ?step)" by simp
    moreover from k cursor(1)
    have "linear_loop ty lut off (off + ?L) (Some ?step) ! k =
          to_uint ty (round_half_up
            (of_int (linear_loop ty lut off (off + ?L) (Some ?step) ! (k - 1)) + ?step))"
      by (intro linear_loop_inside) simp_all
    ultimately show "?lut' ! k = to_uint ty (round_half_up (of_int (?lut' ! (k - 1)) + ?step))"
      by (simp only:)
  qed
  moreover have "\<forall>k<length lut. \<not> (off \<le> int k \<and> int k < off + ?L) \<longrightarrow> ?lut' ! k = lut ! k"
    by (intro allI impI) (rule linear_loop_outside)
  ultimately show ?thesis
    unfolding Let_def by (intro conjI)
qed

text \<open>
  The Linear segment of the program of C2, after its Discrete segment has stored 10.
\<close>

theorem linear_segment_iterative_witness:
  "expand_loop Uint8Array [0, 1, 10, 1, 3, 20] 3 [10, 0, 0, 0] (Some 1) =
   expand_loop Uint8Array [0, 1, 10, 1, 3, 20] 6
     (linear_loop Uint8Array [10, 0, 0, 0] 1 4 (Some (10 / 3))) (Some 4)
   \<and> linear_loop Uint8Array [10, 0, 0, 0] 1 4 (Some (10 / 3)) ! 2 =
     to_uint Uint8Array
       (round_half_up (of_int (linear_loop Uint8Array [10, 0, 0, 0] 1 4 (Some (10 / 3)) ! 1) + 10 / 3))"
  using linear_segment_iterative
    [where i = 3 and sd = "[0, 1, 10, 1, 3, 20]" and off = 1 and lut = "[10, 0, 0, 0]"
       and ty = Uint8Array]
  by (simp add: Let_def)

text \<open>
  C3 as the specification states it, with \<open>output[j] = round (output[j - 1] + step)\<close>
  and no reduction, fails where the rounded steps overshoot the width: from 0 to 65535
  in two steps of \<open>32767.5\<close> a 16-bit table gets 32768 and then 65536, stored as 0.
\<close>

theorem linear_segment_wraps_counterexample:
  "expandSegmentedLUTData
     (projr (PaletteColorLookupTable ''1'' (3, 0, 16) (3, 0, 16) (3, 0, 16) None None None
        (Some [0, 1, 0, 1, 2, 65535]) (Some [0, 1, 0, 1, 2, 65535]) (Some [0, 1, 0, 1, 2, 65535])))
     (Some [0, 1, 0, 1, 2, 65535]) = Inr [0, 32768, 0]
   \<and> [0, 32768, 0] ! 2 \<noteq>
     round_half_up (of_int ([0, 32768, 0] ! 1) + (of_int 65535 - of_int ([0, 32768, 0] ! 0)) / of_int 2)"
  by code_simp

subsection \<open>C4: writes past the end of the buffer\<close>




subsection \<open>C8: opcodes other than 0 and 1\<close>



section \<open>The table: claims C1, C5, C6, C7, C9 and C10\<close>

subsection \<open>C1: a blue channel with no data\<close>

text \<open>
  C1 on the code: a call with explicit red and green data and neither explicit nor
  segmented blue data does not fail with a missing-data error. The constructor returns
  an object, and reading its table then fails with a \<^verbatim>\<open>TypeError\<close>, on the length of
  the missing program.
\<close>

theorem constructor_accepts_missing_blue:
  "PaletteColorLookupTable ''1'' (1, 0, 8) (1, 0, 8) (1, 0, 8)
      (Some [1]) (Some [2]) None None None None =
   Inr \<lparr> uid = ''1'', numberOfEntries = 1, firstValueMapped = 0, bitsPerEntry = 8,
         redSegmentedData = None, redData = Some [1],
         greenSegmentedData = None, greenData = Some [2],
         blueSegmentedData = None, blueData = None,
         DataType = Uint8Array, data = None \<rparr>
   \<and> get_data (projr (PaletteColorLookupTable ''1'' (1, 0, 8) (1, 0, 8) (1, 0, 8)
      (Some [1]) (Some [2]) None None None None)) = Inl TypeError"
  by code_simp

subsection \<open>C5: the components of a 16-bit table of 256 entries\<close>

text \<open>
  C5 on the code: a 16-bit table of 256 entries, each 65535, is built and read without
  an error, and the second triplet of its table is three times \<^verbatim>\<open>NaN\<close>: the sample
  index 256 is outside arrays of 256 entries.
\<close>

theorem get_data_16bit_short_table:
  "\<not> isl (get_data (projr (PaletteColorLookupTable ''1'' (256, 0, 16) (256, 0, 16) (256, 0, 16)
      (Some (replicate 256 65535)) (Some (replicate 256 65535)) (Some (replicate 256 65535))
      None None None)))
   \<and> fst (projr (get_data (projr (PaletteColorLookupTable ''1'' (256, 0, 16) (256, 0, 16) (256, 0, 16)
      (Some (replicate 256 65535)) (Some (replicate 256 65535)) (Some (replicate 256 65535))
      None None None)))) ! 1 = [None, None, None]"
proof -
  let ?d = "replicate 256 (65535 :: int)"
  let ?c = "PaletteColorLookupTable ''1'' (256, 0, 16) (256, 0, 16) (256, 0, 16)
      (Some ?d) (Some ?d) (Some ?d) None None None"
  let ?t = "projr ?c"
  let ?table = "resample16 ?d ?d ?d"
  have c: "?c = Inr \<lparr> uid = ''1'', numberOfEntries = 256, firstValueMapped = 0,
      bitsPerEntry = 16, redSegmentedData = None, redData = Some ?d,
      greenSegmentedData = None, greenData = Some ?d,
      blueSegmentedData = None, blueData = Some ?d,
      DataType = Uint16Array, data = None \<rparr>"
    by (simp add: PaletteColorLookupTable_def)
  have ch: "channel_lut ?t x = Inr ?d" for x
    unfolding c by (cases x) (simp_all add: channel_lut_def typed_from_def to_uint_def)
  have "get_data ?t = Inr (?table, ?t\<lparr>data := Some ?table\<rparr>)"
    unfolding get_data_def Let_def ch by (simp add: c)
  moreover have "?table ! 1 = [None, None, None]"
    using nth_resample16 [of 1 ?d ?d ?d] by simp
  ultimately show ?thesis by simp
qed

subsection \<open>C6: the table of a 16-bit object\<close>




subsection \<open>C7: the table of an 8-bit object\<close>

text \<open>
  C7: when an object built by the constructor has 8 bits per entry and its table is
  returned, the table has \<open>numberOfEntries\<close> triplets, where a descriptor value of 0
  stands for 65536, and the triplet \<open>i\<close> is made of the entries \<open>i\<close> of the red, the
  green and the blue array.
\<close>

theorem get_data_8bit:
  assumes "PaletteColorLookupTable u rd gd bd rD gD bD rS gS bS = Inr t"
    and "bitsPerEntry t = 8"
    and "get_data t = Inr (table, t')"
  shows "numberOfEntries t = (if fst rd = 0 then 65536 else fst rd)
       \<and> length table = numberOfEntries t
       \<and> (\<exists>r g b. channel_lut t Red = Inr r \<and> channel_lut t Green = Inr g
             \<and> channel_lut t Blue = Inr b
             \<and> (\<forall>i<numberOfEntries t. table ! i = [Some (r ! i), Some (g ! i), Some (b ! i)]))"
proof -
  from constructed_fields(1) [OF assms(1)] assms(3)
  obtain r g b where ch: "channel_lut t Red = Inr r" "channel_lut t Green = Inr g"
      "channel_lut t Blue = Inr b"
    and table: "table = (if bitsPerEntry t = 16 then resample16 r g b
                         else zip8 (numberOfEntries t) r g b)"
    by (rule get_data_uncached)
  from assms(2) table have table8: "table = zip8 (numberOfEntries t) r g b" by simp
  from ch have len: "numberOfEntries t = length r" "numberOfEntries t = length g"
      "numberOfEntries t = length b"
    by (simp_all add: length_channel_lut [OF assms(1)])
  have "\<forall>i<numberOfEntries t. table ! i = [Some (r ! i), Some (g ! i), Some (b ! i)]"
    unfolding table8 using len by (intro allI impI nth_zip8)
  with ch have "\<exists>r g b. channel_lut t Red = Inr r \<and> channel_lut t Green = Inr g
      \<and> channel_lut t Blue = Inr b
      \<and> (\<forall>i<numberOfEntries t. table ! i = [Some (r ! i), Some (g ! i), Some (b ! i)])"
    by blast
  moreover have "length table = numberOfEntries t"
    by (simp add: table8 length_zip8)
  moreover have "numberOfEntries t = (if fst rd = 0 then 65536 else fst rd)"
    using constructed_fields(2) [OF assms(1)] by simp
  ultimately show ?thesis by (intro conjI)
qed

text \<open>
  An 8-bit object of two entries, with explicit red and blue data and a segmented
  green program.
\<close>

theorem get_data_8bit_witness:
  "fst (projr (get_data (projr (PaletteColorLookupTable ''1'' (2, 0, 8) (2, 0, 8) (2, 0, 8)
      (Some [1, 2]) None (Some [5, 6]) None (Some [0, 2, 7]) None)))) =
     [[Some 1, Some 7, Some 5], [Some 2, Some 7, Some 6]]
   \<and> length (fst (projr (get_data (projr (PaletteColorLookupTable ''1'' (2, 0, 8) (2, 0, 8) (2, 0, 8)
      (Some [1, 2]) None (Some [5, 6]) None (Some [0, 2, 7]) None))))) = 2"
proof -
  let ?c = "PaletteColorLookupTable ''1'' (2, 0, 8) (2, 0, 8) (2, 0, 8)
      (Some [1, 2]) None (Some [5, 6]) None (Some [0, 2, 7]) None"
  let ?g = "get_data (projr ?c)"
  have c: "?c = Inr (projr ?c)" by code_simp
  have b: "bitsPerEntry (projr ?c) = 8" by code_simp
  have g: "?g = Inr (fst (projr ?g), snd (projr ?g))" by code_simp
  have n: "numberOfEntries (projr ?c) = 2" by code_simp
  have v: "fst (projr ?g) = [[Some 1, Some 7, Some 5], [Some 2, Some 7, Some 6]]" by code_simp
  from get_data_8bit [OF c b g] have "length (fst (projr ?g)) = numberOfEntries (projr ?c)"
    by blast
  with n v show ?thesis by simp
qed

subsection \<open>C9: the table is computed once\<close>

text \<open>
  C9: an object built by the constructor has an empty cache. When the first read
  returns a table, the object then holds that table in its cache, a second read
  returns the same table and leaves the object as it is, and any object with that
  table in its cache returns it whatever its other attributes are: nothing is
  computed again.
\<close>

theorem get_data_idempotent:
  assumes "PaletteColorLookupTable u rd gd bd rD gD bD rS gS bS = Inr t"
    and "get_data t = Inr (table, t')"
  shows "data t = None \<and> data t' = Some table \<and> get_data t' = Inr (table, t')
       \<and> (\<forall>a. data a = Some table \<longrightarrow> get_data a = Inr (table, a))"
proof -
  have fresh: "data t = None" by (rule constructed_fields(1) [OF assms(1)])
  from fresh assms(2) have "t' = t\<lparr>data := Some table\<rparr>"
    by (rule get_data_uncached)
  then have cached: "data t' = Some table" by simp
  then have "get_data t' = Inr (table, t')" by (rule get_data_cached_value)
  with fresh cached show ?thesis by (simp add: get_data_cached_value)
qed

text \<open>
  Two reads of the 8-bit object above.
\<close>

theorem get_data_idempotent_witness:
  "get_data (snd (projr (get_data (projr (PaletteColorLookupTable ''1'' (2, 0, 8) (2, 0, 8) (2, 0, 8)
      (Some [1, 2]) None (Some [5, 6]) None (Some [0, 2, 7]) None))))) =
   get_data (projr (PaletteColorLookupTable ''1'' (2, 0, 8) (2, 0, 8) (2, 0, 8)
      (Some [1, 2]) None (Some [5, 6]) None (Some [0, 2, 7]) None))
   \<and> fst (projr (get_data (projr (PaletteColorLookupTable ''1'' (2, 0, 8) (2, 0, 8) (2, 0, 8)
      (Some [1, 2]) None (Some [5, 6]) None (Some [0, 2, 7]) None)))) =
     [[Some 1, Some 7, Some 5], [Some 2, Some 7, Some 6]]"
proof -
  let ?c = "PaletteColorLookupTable ''1'' (2, 0, 8) (2, 0, 8) (2, 0, 8)
      (Some [1, 2]) None (Some [5, 6]) None (Some [0, 2, 7]) None"
  let ?g = "get_data (projr ?c)"
  have c: "?c = Inr (projr ?c)" by code_simp
  have g: "?g = Inr (fst (projr ?g), snd (projr ?g))" by code_simp
  have v: "fst (projr ?g) = [[Some 1, Some 7, Some 5], [Some 2, Some 7, Some 6]]" by code_simp
  from get_data_idempotent [OF c g]
  have "get_data (snd (projr ?g)) = Inr (fst (projr ?g), snd (projr ?g))" by blast
  with g v show ?thesis by simp
qed

subsection \<open>C10: the three arrays have \<open>numberOfEntries\<close> entries\<close>

text \<open>
  C10: for an object built by the constructor, the array obtained for a channel,
  copied from explicit data or decoded from a program, has exactly
  \<open>numberOfEntries\<close> entries, and a read of the table, the first or a later one, never
  fails with the error of arrays of different sizes.
\<close>

theorem channel_lengths_agree:
  assumes "PaletteColorLookupTable u rd gd bd rD gD bD rS gS bS = Inr t"
  shows "(\<forall>c lut. channel_lut t c = Inr lut \<longrightarrow> length lut = numberOfEntries t)
       \<and> get_data t \<noteq> Inl SizeMismatch
       \<and> (\<forall>table t'. get_data t = Inr (table, t') \<longrightarrow> get_data t' \<noteq> Inl SizeMismatch)"
proof (intro conjI allI impI)
  fix c lut assume "channel_lut t c = Inr lut"
  with assms show "length lut = numberOfEntries t" by (rule length_channel_lut)
next
  show "get_data t \<noteq> Inl SizeMismatch"
  proof
    assume "get_data t = Inl SizeMismatch"
    with constructed_fields(1) [OF assms]
    have "(\<exists>c. channel_lut t c = Inl SizeMismatch)
       \<or> (\<exists>r b. channel_lut t Red = Inr r \<and> channel_lut t Blue = Inr b
               \<and> card (set [length r, length b, length b]) > 1)"
      by (rule get_data_error)
    then show False
    proof
      assume "\<exists>c. channel_lut t c = Inl SizeMismatch"
      then show False by (auto dest: channel_lut_error)
    next
      assume "\<exists>r b. channel_lut t Red = Inr r \<and> channel_lut t Blue = Inr b
               \<and> card (set [length r, length b, length b]) > 1"
      then obtain r b where "channel_lut t Red = Inr r" "channel_lut t Blue = Inr b"
        and more: "card (set [length r, length b, length b]) > 1"
        by blast
      then have "length r = numberOfEntries t" "length b = numberOfEntries t"
        by (simp_all add: length_channel_lut [OF assms])
      with more show False by simp
    qed
  qed
next
  fix table t' assume "get_data t = Inr (table, t')"
  with constructed_fields(1) [OF assms] have "t' = t\<lparr>data := Some table\<rparr>"
    by (rule get_data_uncached)
  then have "get_data t' = Inr (table, t')" by (simp add: get_data_cached_value)
  then show "get_data t' \<noteq> Inl SizeMismatch" by simp
qed

text \<open>
  The 8-bit object above, with a green program that writes past the end.
\<close>

theorem channel_lengths_agree_witness:
  "get_data (projr (PaletteColorLookupTable ''1'' (2, 0, 8) (2, 0, 8) (2, 0, 8)
      (Some [1, 2]) None (Some [5, 6]) None (Some [0, 5, 7]) None)) \<noteq> Inl SizeMismatch
   \<and> channel_lut (projr (PaletteColorLookupTable ''1'' (2, 0, 8) (2, 0, 8) (2, 0, 8)
      (Some [1, 2]) None (Some [5, 6]) None (Some [0, 5, 7]) None)) Green = Inr [7, 7]"
proof -
  let ?c = "PaletteColorLookupTable ''1'' (2, 0, 8) (2, 0, 8) (2, 0, 8)
      (Some [1, 2]) None (Some [5, 6]) None (Some [0, 5, 7]) None"
  have c: "?c = Inr (projr ?c)" by code_simp
  have v: "channel_lut (projr ?c) Green = Inr [7, 7]" by code_simp
  from channel_lengths_agree [OF c] have "get_data (projr ?c) \<noteq> Inl SizeMismatch" by blast
  with v show ?thesis by simp
qed

end
